theory Spec2Isabelle
  imports Complex_Main
begin

section \<open>Tables and the Python errors of the program\<close>

text \<open>
  The program is a Python script: a record extractor (\<open>extract_property_data\<close>) that
  applies one regular expression to the text of a PDF, and an address resolver
  (\<open>get_best_match\<close>, \<open>fuzzy_match_addresses\<close>) that joins the extracted table with a
  reference table through fuzzy string matching. A pandas value is a string, a float or
  null (None/NaN); a DataFrame is a list of column names with its rows; an uncaught Python
  exception is a value of \<open>error\<close>.
\<close>

datatype cell = Str string | Num real | Null

record dataframe =
  columns :: "string list"
  rows :: "cell list list"

datatype error =
    KeyError string | TypeError | FileNotFoundError string | DataSourceError string | OSError string

section \<open>The regular expression engine\<close>

text \<open>
  Characters are read as the code points 0 to 255. The classes are those of Python's
  \<open>re\<close> on \<open>str\<close> patterns restricted to that range: \<open>\d\<close> is a decimal digit,
  \<open>\s\<close> is a character with \<open>str.isspace\<close>, \<open>\w\<close> is an alphanumeric character
  or the underscore, and \<open>.\<close> is everything but the newline.
\<close>

datatype item = Lit char | Digit | Word | Space | Dot

datatype regex =
    One "item list"
  | Seq regex regex
  | Group nat regex
  | Repeat nat "nat option" bool regex

type_synonym caps = "(nat \<times> string) list"

definition is_digit :: "char \<Rightarrow> bool" where
  "is_digit c = (let n = of_char c :: nat in 48 \<le> n \<and> n \<le> 57)"

definition is_space :: "char \<Rightarrow> bool" where
  "is_space c = (let n = of_char c :: nat in
     (9 \<le> n \<and> n \<le> 13) \<or> (28 \<le> n \<and> n \<le> 32) \<or> n = 133 \<or> n = 160)"

definition is_word :: "char \<Rightarrow> bool" where
  "is_word c = (let n = of_char c :: nat in
     (48 \<le> n \<and> n \<le> 57) \<or> (65 \<le> n \<and> n \<le> 90) \<or> n = 95 \<or> (97 \<le> n \<and> n \<le> 122) \<or>
     n = 170 \<or> n = 178 \<or> n = 179 \<or> n = 181 \<or> n = 185 \<or> n = 186 \<or>
     (188 \<le> n \<and> n \<le> 190) \<or> (192 \<le> n \<and> n \<le> 214) \<or> (216 \<le> n \<and> n \<le> 246) \<or>
     (248 \<le> n \<and> n \<le> 255))"

primrec item_ok :: "item \<Rightarrow> char \<Rightarrow> bool" where
  "item_ok (Lit l) c = (c = l)"
| "item_ok Digit c = is_digit c"
| "item_ok Word c = is_word c"
| "item_ok Space c = is_space c"
| "item_ok Dot c = (c \<noteq> CHR 0x0A)"

definition cls_ok :: "item list \<Rightarrow> char \<Rightarrow> bool" where
  "cls_ok its c = list_ex (\<lambda>i. item_ok i c) its"

text \<open>
  A matcher maps the input to the list of all ways to match a prefix of it, each with
  its captured groups and the rest of the input, in the order in which a backtracking
  engine tries them; the head of the list is what Python returns.

  \<open>repeat f greedy lo hi\<close> is the quantifier \<open>{lo,hi}\<close> (\<open>hi = None\<close>: unbounded) over
  the matcher \<open>f\<close>: greedy tries one more iteration before stopping, lazy stops first.
  An iteration has to consume input; every quantified sub-pattern of the program's
  pattern matches at least one character.
\<close>

fun repeat :: "(string \<Rightarrow> (caps \<times> string) list) \<Rightarrow> bool \<Rightarrow> nat \<Rightarrow> nat option \<Rightarrow> string
    \<Rightarrow> (caps \<times> string) list" where
  "repeat f greedy lo hi s =
     (let more = (if hi = Some 0 then []
                  else concat (map (\<lambda>(c1, s1).
                         if length s1 < length s
                         then map (\<lambda>(c2, s2). (c1 @ c2, s2))
                                (repeat f greedy (lo - 1) (map_option (\<lambda>h. h - 1) hi) s1)
                         else []) (f s)));
          stop = (if lo = 0 then [([], s)] else [])
      in if greedy then more @ stop else stop @ more)"

declare repeat.simps [simp del]

primrec rmatch :: "regex \<Rightarrow> string \<Rightarrow> (caps \<times> string) list" where
  "rmatch (One its) s = (case s of [] \<Rightarrow> [] | c # t \<Rightarrow> if cls_ok its c then [([], t)] else [])"
| "rmatch (Seq r1 r2) s =
     concat (map (\<lambda>(c1, s1). map (\<lambda>(c2, s2). (c1 @ c2, s2)) (rmatch r2 s1)) (rmatch r1 s))"
| "rmatch (Group n r) s =
     map (\<lambda>(c, s'). (c @ [(n, take (length s - length s') s)], s')) (rmatch r s)"
| "rmatch (Repeat lo hi greedy r) s = repeat (rmatch r) greedy lo hi s"

text \<open>
  The scan of \<open>re.findall\<close>: the first match at the leftmost position, then on from
  where it ended (one character further after an empty match or a failure).
\<close>

function findall :: "regex \<Rightarrow> string \<Rightarrow> caps list" where
  "findall r s =
     (case rmatch r s of
        [] \<Rightarrow> (case s of [] \<Rightarrow> [] | _ # t \<Rightarrow> findall r t)
      | (c, s') # _ \<Rightarrow>
          (if length s' < length s then c # findall r s'
           else (case s of [] \<Rightarrow> [c] | _ # t \<Rightarrow> c # findall r t)))"
  by pat_completeness auto
termination
  by (relation "measure (\<lambda>(r, s). length s)") auto

declare findall.simps [simp del]

primrec ngroups :: "regex \<Rightarrow> nat" where
  "ngroups (One its) = 0"
| "ngroups (Seq r1 r2) = ngroups r1 + ngroups r2"
| "ngroups (Group n r) = Suc (ngroups r)"
| "ngroups (Repeat lo hi greedy r) = ngroups r"

definition grp :: "caps \<Rightarrow> nat \<Rightarrow> string" where
  "grp c n = (case map_of (rev c) n of None \<Rightarrow> [] | Some v \<Rightarrow> v)"

text \<open>With more than one group, \<open>re.findall\<close> returns the tuple of all groups of each match.\<close>

definition re_findall :: "regex \<Rightarrow> string \<Rightarrow> string list list" where
  "re_findall r s = map (\<lambda>c. map (grp c) [1 ..< Suc (ngroups r)]) (findall r s)"

section \<open>The record extractor\<close>

text \<open>
  \<^verbatim>\<open>(\d{3}-\d{3}(?:-\d{3})?)\s+(.+?)\s+(\d{1,5}\s[\w\s\.\'\-]+?)\s+\$(\d{1,3}(?:,\d{3})*(?:\.\d{2}))\<close>
\<close>

definition pattern :: regex where
  "pattern =
     Seq (Group 1 (Seq (Repeat 3 (Some 3) True (One [Digit]))
            (Seq (One [Lit CHR ''-''])
            (Seq (Repeat 3 (Some 3) True (One [Digit]))
                 (Repeat 0 (Some 1) True
                    (Seq (One [Lit CHR ''-'']) (Repeat 3 (Some 3) True (One [Digit]))))))))
    (Seq (Repeat 1 None True (One [Space]))
    (Seq (Group 2 (Repeat 1 None False (One [Dot])))
    (Seq (Repeat 1 None True (One [Space]))
    (Seq (Group 3 (Seq (Repeat 1 (Some 5) True (One [Digit]))
            (Seq (One [Space])
                 (Repeat 1 None False
                    (One [Word, Space, Lit CHR ''.'', Lit CHR 0x27, Lit CHR ''-''])))))
    (Seq (Repeat 1 None True (One [Space]))
    (Seq (One [Lit CHR ''$''])
         (Group 4 (Seq (Repeat 1 (Some 3) True (One [Digit]))
            (Seq (Repeat 0 None True
                    (Seq (One [Lit CHR '','']) (Repeat 3 (Some 3) True (One [Digit]))))
            (Seq (One [Lit CHR ''.'']) (Repeat 2 (Some 2) True (One [Digit]))))))))))))"

text \<open>
  The files the program touches. \<open>pdfs\<close>: the documents on disk, a page being its text
  or \<open>None\<close> when \<open>get_text\<close> raises; \<open>tables\<close>: what \<open>pd.read_csv\<close> and
  \<open>gpd.read_file\<close> load from a path; \<open>written\<close>: the tables written by \<open>to_csv\<close>;
  \<open>write_fails\<close>: the paths at which writing raises.
\<close>

datatype pdf_file = Unopenable | Document "string option list"

record filesystem =
  pdfs :: "string \<Rightarrow> pdf_file option"
  tables :: "string \<Rightarrow> dataframe option"
  written :: "string \<Rightarrow> dataframe option"
  write_fails :: "string \<Rightarrow> bool"

definition to_csv :: "dataframe \<Rightarrow> string \<Rightarrow> filesystem \<Rightarrow> error + filesystem" where
  "to_csv df path fs =
     (if write_fails fs path then Inl (OSError path)
      else Inr (fs\<lparr>written := (written fs)(path \<mapsto> df)\<rparr>))"

definition full_text :: "string option list \<Rightarrow> string" where
  "full_text pages = concat (map (\<lambda>p. case p of None \<Rightarrow> [] | Some t \<Rightarrow> t) pages)"

definition extract_property_data :: "string \<Rightarrow> string \<Rightarrow> filesystem \<Rightarrow> bool \<times> filesystem" where
  "extract_property_data pdf_path output_csv fs =
     (case pdfs fs pdf_path of
        None \<Rightarrow> (False, fs)
      | Some Unopenable \<Rightarrow> (False, fs)
      | Some (Document pages) \<Rightarrow>
          (let matches = re_findall pattern (full_text pages) in
           if matches = [] then (False, fs)
           else (let df = \<lparr>columns = [''Land Tax #'', ''Owner'', ''Address'', ''Total Owed''],
                           rows = map (map Str) matches\<rparr>
                 in case to_csv df output_csv fs of
                      Inl e \<Rightarrow> (False, fs)
                    | Inr fs' \<Rightarrow> (True, fs'))))"

section \<open>The address resolver\<close>

subsection \<open>The pandas operations the resolver uses\<close>

definition cell_at :: "cell list \<Rightarrow> nat \<Rightarrow> cell" where
  "cell_at r i = (if i < length r then r ! i else Null)"

definition col_index :: "string list \<Rightarrow> string \<Rightarrow> nat" where
  "col_index cs c = length (takeWhile (\<lambda>x. x \<noteq> c) cs)"

text \<open>\<open>df[c]\<close>: the column, or KeyError.\<close>

definition getitem :: "dataframe \<Rightarrow> string \<Rightarrow> error + cell list" where
  "getitem df c =
     (if c \<in> set (columns df)
      then Inr (map (\<lambda>r. cell_at r (col_index (columns df) c)) (rows df))
      else Inl (KeyError c))"

text \<open>\<open>df[c] = vals\<close>: the column is overwritten, or appended when it is new.\<close>

definition setitem :: "dataframe \<Rightarrow> string \<Rightarrow> cell list \<Rightarrow> dataframe" where
  "setitem df c vals =
     (if c \<in> set (columns df)
      then df\<lparr>rows := map (\<lambda>(r, v). r[col_index (columns df) c := v]) (zip (rows df) vals)\<rparr>
      else \<lparr>columns = columns df @ [c], rows = map (\<lambda>(r, v). r @ [v]) (zip (rows df) vals)\<rparr>)"

definition drop_at :: "nat \<Rightarrow> 'a list \<Rightarrow> 'a list" where
  "drop_at i xs = take i xs @ drop (Suc i) xs"

datatype how = Left | Inner

text \<open>
  \<open>pd.merge\<close> on one key column of each side. A row of the left table is joined with
  every row of the right table that has an equal key, in the order of the right table;
  null keys are equal to each other. A left join keeps a row without a partner, padded
  with nulls; an inner join drops it. The rows come in the order of the left table. When
  the two key columns have the same name (\<open>on=\<close>) the key appears once. A column name
  that occurs on both sides takes the suffix of its side.
\<close>

definition merge :: "dataframe \<Rightarrow> dataframe \<Rightarrow> how \<Rightarrow> string \<Rightarrow> string \<Rightarrow> string \<times> string
    \<Rightarrow> error + dataframe" where
  "merge left right how left_on right_on suffixes =
     (if left_on \<notin> set (columns left) then Inl (KeyError left_on)
      else if right_on \<notin> set (columns right) then Inl (KeyError right_on)
      else
        (let li = col_index (columns left) left_on;
             ri = col_index (columns right) right_on;
             keep = (\<lambda>xs. if left_on = right_on then drop_at ri xs else xs);
             rcols = (if left_on = right_on then drop_at ri (columns right) else columns right);
             lnames = map (\<lambda>c. if c \<in> set rcols then c @ fst suffixes else c) (columns left);
             rnames = map (\<lambda>c. if c \<in> set (columns left) then c @ snd suffixes else c) rcols;
             joined = (\<lambda>l.
               (let partners = filter (\<lambda>r. cell_at r ri = cell_at l li) (rows right) in
                if partners = []
                then (case how of Left \<Rightarrow> [l @ replicate (length rcols) Null] | Inner \<Rightarrow> [])
                else map (\<lambda>r. l @ keep r) partners))
         in Inr \<lparr>columns = lnames @ rnames, rows = concat (map joined (rows left))\<rparr>))"

text \<open>
  \<open>pd.DataFrame(matches)\<close> of the list of dictionaries built by the loop: the three keys
  are the columns; an empty list gives a frame without columns.
\<close>

definition DataFrame :: "(cell \<times> cell \<times> real) list \<Rightarrow> dataframe" where
  "DataFrame matches =
     (if matches = [] then \<lparr>columns = [], rows = []\<rparr>
      else \<lparr>columns = [''Standard Address'', ''Matched Address'', ''Score''],
            rows = map (\<lambda>(addr, best_match, score). [addr, best_match, Num score]) matches\<rparr>)"

text \<open>\<open>series < 100\<close>, element by element: a null compares false, a string raises.\<close>

fun lt_100 :: "cell list \<Rightarrow> error + bool list" where
  "lt_100 [] = Inr []"
| "lt_100 (Str s # cs) = Inl TypeError"
| "lt_100 (Num x # cs) = (case lt_100 cs of Inl e \<Rightarrow> Inl e | Inr bs \<Rightarrow> Inr ((x < 100) # bs))"
| "lt_100 (Null # cs) = (case lt_100 cs of Inl e \<Rightarrow> Inl e | Inr bs \<Rightarrow> Inr (False # bs))"

text \<open>\<open>df[mask]\<close>: the rows at which the mask is true.\<close>

definition select_rows :: "dataframe \<Rightarrow> bool list \<Rightarrow> dataframe" where
  "select_rows df msk = df\<lparr>rows := map fst (filter snd (zip (rows df) msk))\<rparr>"

subsection \<open>The best match of one address\<close>

text \<open>
  \<open>process.extractOne(query, choices, scorer=scorer)\<close> of rapidfuzz. The choices are
  scored in order and null choices are skipped. The scan starts with the score cutoff at
  the worst score of the scorer, 0; a choice is kept when its score reaches the cutoff
  and is higher than the best score so far, and the cutoff is raised to it; the scan
  stops at a choice with the optimal score, 100. The result is the choice kept last with
  its score and its key, and \<open>None\<close> for a null query and when no choice was kept. The
  scorer is a parameter (the program passes \<open>fuzz.token_sort_ratio\<close>, whose values lie
  between 0 and 100); \<open>scorer query choice\<close> is the value the call returns, and it
  compares strings only.
\<close>

fun best_of :: "(string \<Rightarrow> string \<Rightarrow> real) \<Rightarrow> string \<Rightarrow> cell list \<Rightarrow> nat \<Rightarrow> real
    \<Rightarrow> (string \<times> real \<times> nat) option \<Rightarrow> error + (string \<times> real \<times> nat) option" where
  "best_of scorer query [] key score_cutoff result = Inr result"
| "best_of scorer query (Null # choices) key score_cutoff result =
     best_of scorer query choices (Suc key) score_cutoff result"
| "best_of scorer query (Num x # choices) key score_cutoff result = Inl TypeError"
| "best_of scorer query (Str choice # choices) key score_cutoff result =
     (let score = scorer query choice;
          better = (score_cutoff \<le> score \<and>
                    (case result of None \<Rightarrow> True | Some (m, best, k) \<Rightarrow> best < score));
          result' = (if better then Some (choice, score, key) else result);
          score_cutoff' = (if better then score else score_cutoff)
      in if score = 100 then Inr result'
         else best_of scorer query choices (Suc key) score_cutoff' result')"

definition extractOne :: "cell \<Rightarrow> cell list \<Rightarrow> (string \<Rightarrow> string \<Rightarrow> real)
    \<Rightarrow> error + (string \<times> real \<times> nat) option" where
  "extractOne query choices scorer =
     (case query of
        Null \<Rightarrow> Inr None
      | Num x \<Rightarrow> Inl TypeError
      | Str q \<Rightarrow> best_of scorer q choices 0 0 None)"

text \<open>
  \<open>match, score, _ = process.extractOne(...)\<close>: unpacking \<open>None\<close> raises TypeError.
\<close>

definition get_best_match :: "cell \<Rightarrow> cell list \<Rightarrow> (string \<Rightarrow> string \<Rightarrow> real) \<Rightarrow> real
    \<Rightarrow> error + (cell \<times> real)" where
  "get_best_match address choices scorer threshold =
     (case extractOne address choices scorer of
        Inl e \<Rightarrow> Inl e
      | Inr None \<Rightarrow> Inl TypeError
      | Inr (Some (match, score, k)) \<Rightarrow>
          if threshold \<le> score then Inr (Str match, score) else Inr (Null, score))"

subsection \<open>The resolver\<close>

text \<open>The loop over the addresses, with the default threshold 25.\<close>

fun match_loop :: "(string \<Rightarrow> string \<Rightarrow> real) \<Rightarrow> cell list \<Rightarrow> cell list
    \<Rightarrow> error + (cell \<times> cell \<times> real) list" where
  "match_loop scorer [] choices = Inr []"
| "match_loop scorer (addr # addrs) choices =
     (case get_best_match addr choices scorer 25 of
        Inl e \<Rightarrow> Inl e
      | Inr (best_match, score) \<Rightarrow>
          (case match_loop scorer addrs choices of
             Inl e \<Rightarrow> Inl e
           | Inr matches \<Rightarrow> Inr ((addr, best_match, score) # matches)))"

text \<open>Lines 136 to 151: from the two loaded tables to \<open>result_df\<close>.\<close>

definition link_tables :: "(string \<Rightarrow> string \<Rightarrow> real) \<Rightarrow> dataframe \<Rightarrow> dataframe
    \<Rightarrow> error + dataframe" where
  "link_tables scorer csv_df0 shapefile_gdf0 =
     (case getitem csv_df0 ''Address'' of
        Inl e \<Rightarrow> Inl e
      | Inr address \<Rightarrow>
     (let csv_df = setitem csv_df0 ''Standard Address'' address in
      case getitem shapefile_gdf0 ''SITEADDR'' of
        Inl e \<Rightarrow> Inl e
      | Inr siteaddr \<Rightarrow>
     (let shapefile_gdf = setitem shapefile_gdf0 ''Standard Address'' siteaddr in
      case getitem csv_df ''Standard Address'' of
        Inl e \<Rightarrow> Inl e
      | Inr addrs \<Rightarrow>
     (case getitem shapefile_gdf ''Standard Address'' of
        Inl e \<Rightarrow> Inl e
      | Inr choices \<Rightarrow>
     (case match_loop scorer addrs choices of
        Inl e \<Rightarrow> Inl e
      | Inr matches \<Rightarrow>
     (case merge csv_df (DataFrame matches) Left ''Standard Address'' ''Standard Address''
             (''_x'', ''_y'') of
        Inl e \<Rightarrow> Inl e
      | Inr result_df \<Rightarrow>
          merge result_df shapefile_gdf Inner ''Matched Address'' ''Standard Address''
            ([], ''_shp'')))))))"

text \<open>Line 158: \<open>result_df[result_df['Score'] < 100]\<close>.\<close>

definition imperfect_matches :: "dataframe \<Rightarrow> error + dataframe" where
  "imperfect_matches result_df =
     (case getitem result_df ''Score'' of
        Inl e \<Rightarrow> Inl e
      | Inr score \<Rightarrow>
          (case lt_100 score of
             Inl e \<Rightarrow> Inl e
           | Inr msk \<Rightarrow> Inr (select_rows result_df msk)))"

text \<open>
  \<open>pd.read_csv\<close> raises FileNotFoundError for a missing file, \<open>gpd.read_file\<close> raises
  DataSourceError.
\<close>

definition read_csv :: "filesystem \<Rightarrow> string \<Rightarrow> error + dataframe" where
  "read_csv fs path =
     (case tables fs path of None \<Rightarrow> Inl (FileNotFoundError path) | Some df \<Rightarrow> Inr df)"

definition read_file :: "filesystem \<Rightarrow> string \<Rightarrow> error + dataframe" where
  "read_file fs path =
     (case tables fs path of None \<Rightarrow> Inl (DataSourceError path) | Some df \<Rightarrow> Inr df)"

text \<open>
  The function returns nothing; an exception leaves the function with the files written
  so far.
\<close>

definition fuzzy_match_addresses :: "(string \<Rightarrow> string \<Rightarrow> real) \<Rightarrow> string \<Rightarrow> string \<Rightarrow> string
    \<Rightarrow> filesystem \<Rightarrow> (error + unit) \<times> filesystem" where
  "fuzzy_match_addresses scorer csv_path shapefile_path output_path fs =
     (case read_csv fs csv_path of
        Inl e \<Rightarrow> (Inl e, fs)
      | Inr csv_df \<Rightarrow>
     (case read_file fs shapefile_path of
        Inl e \<Rightarrow> (Inl e, fs)
      | Inr shapefile_gdf \<Rightarrow>
     (case link_tables scorer csv_df shapefile_gdf of
        Inl e \<Rightarrow> (Inl e, fs)
      | Inr result_df \<Rightarrow>
     (case to_csv result_df output_path fs of
        Inl e \<Rightarrow> (Inl e, fs)
      | Inr fs1 \<Rightarrow>
     (case imperfect_matches result_df of
        Inl e \<Rightarrow> (Inl e, fs1)
      | Inr imperfect \<Rightarrow>
     (case to_csv imperfect ''imperfect_matches.csv'' fs1 of
        Inl e \<Rightarrow> (Inl e, fs1)
      | Inr fs2 \<Rightarrow> (Inr (), fs2)))))))"

section \<open>The language of a pattern\<close>

text \<open>
  What a pattern matches, independently of the order in which the engine tries the
  alternatives: \<open>lang r\<close> is the set of the strings that \<open>r\<close> matches, each with the
  groups captured on the way. \<open>occurs r s c\<close>: some substring of \<open>s\<close> is matched by \<open>r\<close>
  with the captures \<open>c\<close>.
\<close>

fun iter :: "(string \<times> caps) set \<Rightarrow> nat \<Rightarrow> (string \<times> caps) set" where
  "iter L 0 = {([], [])}"
| "iter L (Suc k) =
     {(u1 @ u2, c1 @ c2) | u1 c1 u2 c2. (u1, c1) \<in> L \<and> u1 \<noteq> [] \<and> (u2, c2) \<in> iter L k}"

definition count_ok :: "nat \<Rightarrow> nat option \<Rightarrow> nat \<Rightarrow> bool" where
  "count_ok lo hi k = (lo \<le> k \<and> (case hi of None \<Rightarrow> True | Some h \<Rightarrow> k \<le> h))"

primrec lang :: "regex \<Rightarrow> (string \<times> caps) set" where
  "lang (One its) = {([c], []) | c. cls_ok its c}"
| "lang (Seq r1 r2) =
     {(u1 @ u2, c1 @ c2) | u1 c1 u2 c2. (u1, c1) \<in> lang r1 \<and> (u2, c2) \<in> lang r2}"
| "lang (Group n r) = {(u, c @ [(n, u)]) | u c. (u, c) \<in> lang r}"
| "lang (Repeat lo hi greedy r) = {x. \<exists>k. count_ok lo hi k \<and> x \<in> iter (lang r) k}"

definition splits :: "(string \<times> caps) set \<Rightarrow> string \<Rightarrow> (caps \<times> string) set" where
  "splits L s = {(c, s'). \<exists>u. s = u @ s' \<and> (u, c) \<in> L}"

definition reps :: "(string \<times> caps) set \<Rightarrow> nat \<Rightarrow> nat option \<Rightarrow> string \<Rightarrow> (caps \<times> string) set" where
  "reps L lo hi s = {(c, s'). \<exists>u k. s = u @ s' \<and> count_ok lo hi k \<and> (u, c) \<in> iter L k}"

definition occurs :: "regex \<Rightarrow> string \<Rightarrow> caps \<Rightarrow> bool" where
  "occurs r s c = (\<exists>pre u suf. s = pre @ u @ suf \<and> (u, c) \<in> lang r)"

section \<open>The shapes of the fields\<close>

text \<open>
  \<open>fits t s\<close>: the string \<open>s\<close> has the form of the template \<open>t\<close>, in which \<open>d\<close> stands
  for a decimal digit and every other character for itself.
\<close>

fun fits :: "string \<Rightarrow> string \<Rightarrow> bool" where
  "fits [] [] = True"
| "fits (t # ts) (c # cs) = ((if t = CHR ''d'' then is_digit c else c = t) \<and> fits ts cs)"
| "fits _ _ = False"

definition identifier_shape :: "string \<Rightarrow> bool" where
  "identifier_shape s = (fits ''ddd-ddd'' s \<or> fits ''ddd-ddd-ddd'' s)"

definition address_char :: "char \<Rightarrow> bool" where
  "address_char c = (is_word c \<or> is_space c \<or> c = CHR ''.'' \<or> c = CHR 0x27 \<or> c = CHR ''-'')"

definition address_shape :: "string \<Rightarrow> bool" where
  "address_shape s =
     (let ds = takeWhile is_digit s; rest = dropWhile is_digit s
      in 1 \<le> length ds \<and> length ds \<le> 5 \<and>
         (case rest of [] \<Rightarrow> False
          | w # cs \<Rightarrow> is_space w \<and> cs \<noteq> [] \<and> list_all address_char cs))"

definition amount_ending :: "string \<Rightarrow> bool" where
  "amount_ending s = (3 \<le> length s \<and> fits ''.dd'' (drop (length s - 3) s))"

fun comma_groups :: "string \<Rightarrow> bool" where
  "comma_groups (c # d1 # d2 # d3 # rest) =
     (c = CHR '','' \<and> is_digit d1 \<and> is_digit d2 \<and> is_digit d3 \<and> comma_groups rest)"
| "comma_groups s = fits ''.dd'' s"

definition amount_shape :: "string \<Rightarrow> bool" where
  "amount_shape s =
     (let ds = takeWhile is_digit s; rest = dropWhile is_digit s
      in 1 \<le> length ds \<and> length ds \<le> 3 \<and> comma_groups rest)"

definition record_shape :: "string list \<Rightarrow> bool" where
  "record_shape r =
     (case r of
        [identifier, owner, address, amount] \<Rightarrow>
          identifier_shape identifier \<and> address_shape address \<and> amount_ending amount
      | _ \<Rightarrow> False)"

section \<open>The parts of the program's pattern\<close>

definition digits_re :: "nat \<Rightarrow> nat \<Rightarrow> regex" where
  "digits_re lo hi = Repeat lo (Some hi) True (One [Digit])"

definition spaces_re :: regex where
  "spaces_re = Repeat 1 None True (One [Space])"

definition identifier_re :: regex where
  "identifier_re =
     Seq (digits_re 3 3) (Seq (One [Lit CHR ''-'']) (Seq (digits_re 3 3)
       (Repeat 0 (Some 1) True (Seq (One [Lit CHR ''-'']) (digits_re 3 3)))))"

definition owner_re :: regex where
  "owner_re = Repeat 1 None False (One [Dot])"

definition address_re :: regex where
  "address_re =
     Seq (digits_re 1 5) (Seq (One [Space])
       (Repeat 1 None False (One [Word, Space, Lit CHR ''.'', Lit CHR 0x27, Lit CHR ''-''])))"

definition comma_group_re :: regex where
  "comma_group_re = Seq (One [Lit CHR '','']) (digits_re 3 3)"

definition amount_re :: regex where
  "amount_re =
     Seq (digits_re 1 3) (Seq (Repeat 0 None True comma_group_re)
       (Seq (One [Lit CHR ''.'']) (digits_re 2 2)))"

section \<open>Notions of the specification and example inputs\<close>

definition best_score :: "(string \<Rightarrow> string \<Rightarrow> real) \<Rightarrow> string \<Rightarrow> string list \<Rightarrow> real" where
  "best_score scorer a refs = Max (scorer a ` set refs)"

definition on_scale :: "(string \<Rightarrow> string \<Rightarrow> real) \<Rightarrow> string \<Rightarrow> string list \<Rightarrow> bool" where
  "on_scale scorer a refs = list_all (\<lambda>c. 0 \<le> scorer a c \<and> scorer a c \<le> 100) refs"

definition score_of :: "dataframe \<Rightarrow> cell list \<Rightarrow> cell" where
  "score_of df r = cell_at r (col_index (columns df) ''Score'')"

definition below_100 :: "cell \<Rightarrow> bool" where
  "below_100 c = (case c of Num x \<Rightarrow> x < 100 | Str s \<Rightarrow> False | Null \<Rightarrow> False)"

definition is_string :: "cell \<Rightarrow> bool" where
  "is_string c = (case c of Str s \<Rightarrow> True | Num x \<Rightarrow> False | Null \<Rightarrow> False)"

definition example_fs :: "dataframe \<Rightarrow> dataframe \<Rightarrow> filesystem" where
  "example_fs csv_df shapefile_gdf =
     \<lparr>pdfs = (\<lambda>p. None),
      tables = (\<lambda>p. if p = ''sale.csv'' then Some csv_df
                     else if p = ''prcl.shp'' then Some shapefile_gdf else None),
      written = (\<lambda>p. None),
      write_fails = (\<lambda>p. False)\<rparr>"

definition one_record :: dataframe where
  "one_record = \<lparr>columns = [''Land Tax #'', ''Owner'', ''Address'', ''Total Owed''],
                  rows = [[Str ''123-456-789'', Str ''JOHN DOE'', Str ''456 Main St.'', Str ''1,234.56'']]\<rparr>"

definition one_parcel :: dataframe where
  "one_parcel = \<lparr>columns = [''SITEADDR'', ''HANDLE''], rows = [[Str ''ZZZ'', Num 7]]\<rparr>"

definition no_parcel :: dataframe where
  "no_parcel = \<lparr>columns = [''SITEADDR'', ''HANDLE''], rows = []\<rparr>"

definition four_scores :: dataframe where
  "four_scores = \<lparr>columns = [''Address'', ''Score''],
     rows = [[Str ''1 A'', Num 100], [Str ''2 B'', Num 87], [Str ''3 C'', Num 100], [Str ''4 D'', Num 40]]\<rparr>"

definition no_address_column :: dataframe where
  "no_address_column = \<lparr>columns = [''Land Tax #'', ''Owner'', ''Total Owed''],
     rows = [[Str ''123-456-789'', Str ''JOHN DOE'', Str ''1,234.56'']]\<rparr>"

definition pdf_fs :: "string option list \<Rightarrow> filesystem" where
  "pdf_fs pages =
     \<lparr>pdfs = (\<lambda>p. if p = ''Sale-List-231.pdf'' then Some (Document pages) else None),
      tables = (\<lambda>p. None),
      written = (\<lambda>p. None),
      write_fails = (\<lambda>p. False)\<rparr>"

definition literal_record :: string where
  "literal_record = ''123-456-789 JOHN DOE 456 Main St. $1,234.56''"

definition literal_table :: dataframe where
  "literal_table =
     \<lparr>columns = [''Land Tax #'', ''Owner'', ''Address'', ''Total Owed''],
      rows = [[Str ''123-456-789'', Str ''JOHN DOE'', Str ''456 Main St.'', Str ''1,234.56'']]\<rparr>"

definition same_address_twice :: dataframe where
  "same_address_twice =
     \<lparr>columns = [''Land Tax #'', ''Address''],
      rows = [[Str ''123-456-789'', Str ''456 Main St.''], [Str ''987-654'', Str ''456 Main St.'']]\<rparr>"

definition main_st_parcel :: dataframe where
  "main_st_parcel = \<lparr>columns = [''SITEADDR'', ''HANDLE''], rows = [[Str ''456 MAIN ST'', Num 7]]\<rparr>"

section \<open>Properties of the resolver\<close>

lemma Max_is_100:
  assumes "finite S" and "(100::real) \<in> S" and "\<forall>x \<in> S. x \<le> 100"
  shows "Max S = 100"
  using assms by (intro Max_eqI) auto

lemma best_of_strings:
  assumes "scorer q m = b" and "b \<le> 100" and "\<forall>c \<in> set refs. scorer q c \<le> 100"
  shows "\<exists>m' k'. best_of scorer q (map Str refs) key b (Some (m, b, k)) =
              Inr (Some (m', Max (insert b (scorer q ` set refs)), k')) \<and>
            m' \<in> insert m (set refs) \<and>
            scorer q m' = Max (insert b (scorer q ` set refs))"
  using assms
proof (induction refs arbitrary: m b k key)
  case Nil
  then show ?case by simp
next
  case (Cons r refs)
  let ?s = "scorer q r"
  let ?S = "scorer q ` set refs"
  have le: "\<forall>x \<in> insert b (scorer q ` set (r # refs)). x \<le> 100"
    using Cons.prems(2,3) by auto
  have rest: "\<forall>c \<in> set refs. scorer q c \<le> 100" and s100: "?s \<le> 100"
    using Cons.prems(3) by auto
  show ?case
  proof (cases "b < ?s")
    case True
    show ?thesis
    proof (cases "?s = 100")
      case True
      have "best_of scorer q (map Str (r # refs)) key b (Some (m, b, k)) = Inr (Some (r, ?s, key))"
        using True \<open>b < ?s\<close> by (simp add: Let_def)
      moreover have "Max (insert b (scorer q ` set (r # refs))) = 100"
        using le True by (intro Max_is_100) auto
      ultimately show ?thesis using True by auto
    next
      case False
      have step: "best_of scorer q (map Str (r # refs)) key b (Some (m, b, k)) =
          best_of scorer q (map Str refs) (Suc key) ?s (Some (r, ?s, key))"
        using False \<open>b < ?s\<close> by (simp add: Let_def)
      have "?s \<le> Max (insert ?s ?S)" by simp
      with \<open>b < ?s\<close> have "max b (Max (insert ?s ?S)) = Max (insert ?s ?S)"
        by (intro max.absorb2) linarith
      then have eq: "Max (insert b (scorer q ` set (r # refs))) = Max (insert ?s ?S)"
        by simp
      from Cons.IH[of r ?s "Suc key" key, OF refl s100 rest] obtain m' k' where
        "best_of scorer q (map Str refs) (Suc key) ?s (Some (r, ?s, key)) =
           Inr (Some (m', Max (insert ?s ?S), k'))"
        "m' \<in> insert r (set refs)" "scorer q m' = Max (insert ?s ?S)"
        by blast
      then show ?thesis unfolding step eq by auto
    qed
  next
    case False
    show ?thesis
    proof (cases "?s = 100")
      case True
      with False Cons.prems(2) have b: "b = 100" by simp
      have "best_of scorer q (map Str (r # refs)) key b (Some (m, b, k)) = Inr (Some (m, b, k))"
        using True False by (simp add: Let_def)
      moreover have "Max (insert b (scorer q ` set (r # refs))) = 100"
        using le True by (intro Max_is_100) auto
      ultimately show ?thesis using b Cons.prems(1) by auto
    next
      case ne: False
      have step: "best_of scorer q (map Str (r # refs)) key b (Some (m, b, k)) =
          best_of scorer q (map Str refs) (Suc key) b (Some (m, b, k))"
        using False ne by (simp add: Let_def)
      have "b \<le> Max (insert b ?S)" by simp
      with False have "max ?s (Max (insert b ?S)) = Max (insert b ?S)"
        by (intro max.absorb2) linarith
      moreover have "insert b (scorer q ` set (r # refs)) = insert ?s (insert b ?S)"
        by auto
      moreover have "Max (insert ?s (insert b ?S)) = max ?s (Max (insert b ?S))"
        by (rule Max_insert) simp_all
      ultimately have eq: "Max (insert b (scorer q ` set (r # refs))) = Max (insert b ?S)"
        by simp
      from Cons.IH[of m b "Suc key" k, OF Cons.prems(1,2) rest] obtain m' k' where
        "best_of scorer q (map Str refs) (Suc key) b (Some (m, b, k)) =
           Inr (Some (m', Max (insert b ?S), k'))"
        "m' \<in> insert m (set refs)" "scorer q m' = Max (insert b ?S)"
        by blast
      then show ?thesis unfolding step eq by auto
    qed
  qed
qed

lemma extractOne_strings:
  assumes "refs \<noteq> []" and "on_scale scorer q refs"
  shows "\<exists>m k. extractOne (Str q) (map Str refs) scorer =
              Inr (Some (m, Max (scorer q ` set refs), k)) \<and>
            m \<in> set refs \<and> scorer q m = Max (scorer q ` set refs)"
proof -
  from assms(1) obtain r rs where refs: "refs = r # rs" by (cases refs) auto
  let ?s = "scorer q r"
  from assms(2) have s: "0 \<le> ?s" "?s \<le> 100" and rest: "\<forall>c \<in> set rs. scorer q c \<le> 100"
    and le: "\<forall>x \<in> scorer q ` set refs. x \<le> 100"
    unfolding refs on_scale_def by (auto simp: list_all_iff)
  have eq: "scorer q ` set refs = insert ?s (scorer q ` set rs)"
    unfolding refs by simp
  show ?thesis
  proof (cases "?s = 100")
    case True
    have "extractOne (Str q) (map Str refs) scorer = Inr (Some (r, ?s, 0))"
      unfolding refs extractOne_def using True by (simp add: Let_def)
    moreover have "Max (scorer q ` set refs) = 100"
      using le True unfolding refs by (intro Max_is_100) auto
    ultimately show ?thesis using True unfolding refs by auto
  next
    case False
    have step: "extractOne (Str q) (map Str refs) scorer =
        best_of scorer q (map Str rs) (Suc 0) ?s (Some (r, ?s, 0))"
      unfolding refs extractOne_def using False s(1) by (simp add: Let_def)
    from best_of_strings[of scorer q r ?s rs "Suc 0" 0, OF refl s(2) rest] obtain m' k' where
      "best_of scorer q (map Str rs) (Suc 0) ?s (Some (r, ?s, 0)) =
         Inr (Some (m', Max (insert ?s (scorer q ` set rs)), k'))"
      "m' \<in> insert r (set rs)" "scorer q m' = Max (insert ?s (scorer q ` set rs))"
      by blast
    then show ?thesis unfolding step eq unfolding refs by auto
  qed
qed

lemma get_best_match_strings:
  assumes "refs \<noteq> []" and "on_scale scorer a refs"
  shows "\<exists>m \<in> set refs. scorer a m = Max (scorer a ` set refs) \<and>
           get_best_match (Str a) (map Str refs) scorer T =
             Inr (if T \<le> Max (scorer a ` set refs) then Str m else Null,
                  Max (scorer a ` set refs))"
proof -
  from extractOne_strings[OF assms] obtain m k where
    "extractOne (Str a) (map Str refs) scorer = Inr (Some (m, Max (scorer a ` set refs), k))"
    "m \<in> set refs" "scorer a m = Max (scorer a ` set refs)" by blast
  then show ?thesis by (auto simp: get_best_match_def)
qed


text \<open>
  The cutoff and the stop, on scores outside the scale of the scorer: no choice reaches
  the cutoff 0, and the result is \<open>None\<close>; the scan stops at the first score 100, before
  a higher score and before a choice that is not a string.
\<close>

lemma extractOne_below_cutoff:
  "extractOne (Str ''q'') [Str ''a'', Str ''b''] (\<lambda>q c. if c = ''a'' then - 5 else - 1) = Inr None"
  by (simp add: extractOne_def Let_def)

lemma get_best_match_below_cutoff:
  "get_best_match (Str ''q'') [Str ''a'', Str ''b''] (\<lambda>q c. if c = ''a'' then - 5 else - 1) 25 =
     Inl TypeError"
  by (simp add: get_best_match_def extractOne_def Let_def)

lemma extractOne_stops_at_optimal:
  "extractOne (Str ''q'') [Str ''a'', Str ''b''] (\<lambda>q c. if c = ''a'' then 100 else 130) =
     Inr (Some (''a'', 100, 0))"
  "extractOne (Str ''q'') [Str ''a'', Num 1] (\<lambda>q c. 100) = Inr (Some (''a'', 100, 0))"
  by (simp_all add: extractOne_def Let_def)

lemma lt_100_numbers:
  "\<forall>c \<in> set cs. \<not> (\<exists>s. c = Str s) \<Longrightarrow>
   lt_100 cs = Inr (map (\<lambda>c. case c of Num x \<Rightarrow> x < 100 | _ \<Rightarrow> False) cs)"
proof (induction cs)
  case Nil then show ?case by simp
next
  case (Cons c cs)
  then show ?case by (cases c) auto
qed

lemma filter_by_mask: "map fst (filter snd (zip rs (map f rs))) = filter f rs"
  by (induction rs) auto

text \<open>
  Claim C4. Against a non-empty reference list of strings, with a scorer on the scale
  from 0 to 100, the score returned by \<open>get_best_match\<close> is the best score over the
  list. When it is at least the threshold, a reference entry with that score is returned
  as the match, however far below 100 the score is; when it is strictly below the
  threshold, the match is null ("no match") and the score is still returned.
\<close>

theorem threshold_boundary:
  assumes "refs \<noteq> []" and "on_scale scorer a refs"
  shows "(T \<le> best_score scorer a refs \<longrightarrow>
            (\<exists>m \<in> set refs. scorer a m = best_score scorer a refs \<and>
               get_best_match (Str a) (map Str refs) scorer T = Inr (Str m, best_score scorer a refs))) \<and>
         (best_score scorer a refs < T \<longrightarrow>
            get_best_match (Str a) (map Str refs) scorer T = Inr (Null, best_score scorer a refs))"
  using get_best_match_strings[OF assms, of T] unfolding best_score_def by auto

theorem threshold_boundary_witness:
  "[''Main St 123'', ''456 Oak Ave''] \<noteq> [] \<and>
   on_scale (\<lambda>a b. if b = ''Main St 123'' then 25 else 10) ''123 Main St''
     [''Main St 123'', ''456 Oak Ave''] \<and>
   on_scale (\<lambda>a b. if b = ''Main St 123'' then 24 else 10) ''123 Main St''
     [''Main St 123'', ''456 Oak Ave''] \<and>
   get_best_match (Str ''123 Main St'') (map Str [''Main St 123'', ''456 Oak Ave''])
     (\<lambda>a b. if b = ''Main St 123'' then 25 else 10) 25 = Inr (Str ''Main St 123'', 25) \<and>
   get_best_match (Str ''123 Main St'') (map Str [''Main St 123'', ''456 Oak Ave''])
     (\<lambda>a b. if b = ''Main St 123'' then 24 else 10) 25 = Inr (Null, 24)"
proof -
  have h: "[''Main St 123'', ''456 Oak Ave''] \<noteq> []"
    "on_scale (\<lambda>a b. if b = ''Main St 123'' then 25 else 10) ''123 Main St''
       [''Main St 123'', ''456 Oak Ave'']"
    "on_scale (\<lambda>a b. if b = ''Main St 123'' then 24 else 10) ''123 Main St''
       [''Main St 123'', ''456 Oak Ave'']"
    by (simp_all add: on_scale_def)
  from threshold_boundary[OF h(1) h(2), of 25] threshold_boundary[OF h(1) h(3), of 25] h
  show ?thesis by (simp add: best_score_def)
qed



text \<open>
  Claim C7. For a linked table with a \<open>Score\<close> column of numbers (or nulls), the
  low-confidence subset has the columns of the linked table and exactly its rows whose
  score is strictly below 100, in their original order. The instance below is the table
  with the scores 100, 87, 100, 40: the subset is the rows with 87 and 40, in that order.
\<close>

theorem low_confidence_subset:
  assumes "''Score'' \<in> set (columns df)"
    and "\<forall>r \<in> set (rows df). \<not> is_string (score_of df r)"
  shows "\<exists>low. imperfect_matches df = Inr low \<and> columns low = columns df \<and>
           rows low = filter (\<lambda>r. below_100 (score_of df r)) (rows df)"
proof -
  let ?i = "col_index (columns df) ''Score''"
  have g: "getitem df ''Score'' = Inr (map (\<lambda>r. cell_at r ?i) (rows df))"
    using assms(1) by (simp add: getitem_def)
  have "\<forall>c \<in> set (map (\<lambda>r. cell_at r ?i) (rows df)). \<not> (\<exists>s. c = Str s)"
    using assms(2) by (auto simp: is_string_def score_of_def)
  then have l: "lt_100 (map (\<lambda>r. cell_at r ?i) (rows df)) =
      Inr (map (\<lambda>r. below_100 (cell_at r ?i)) (rows df))"
    by (simp add: lt_100_numbers below_100_def[abs_def] comp_def)
  have "imperfect_matches df = Inr (select_rows df (map (\<lambda>r. below_100 (cell_at r ?i)) (rows df)))"
    by (simp add: imperfect_matches_def g l)
  then show ?thesis
    by (simp add: select_rows_def filter_by_mask score_of_def)
qed

theorem low_confidence_subset_witness:
  "''Score'' \<in> set (columns four_scores) \<and>
   list_all (\<lambda>r. \<not> is_string (score_of four_scores r)) (rows four_scores) \<and>
   imperfect_matches four_scores =
     Inr \<lparr>columns = [''Address'', ''Score''], rows = [[Str ''2 B'', Num 87], [Str ''4 D'', Num 40]]\<rparr>"
  using low_confidence_subset[of four_scores]
  by (auto simp: four_scores_def is_string_def score_of_def cell_at_def col_index_def below_100_def)

text \<open>
  Claim C8. When the input table has no \<open>Address\<close> column, the resolver fails before the
  matching loop: the result is an error (the KeyError of the column when the reference
  file loads), it is the same for every scorer and every reference table, and no file
  is written.
\<close>

theorem missing_address_column:
  assumes "tables fs csv_path = Some csv_df" and "''Address'' \<notin> set (columns csv_df)"
  shows "fuzzy_match_addresses scorer csv_path shapefile_path output_path fs =
           (Inl (case tables fs shapefile_path of
                   None \<Rightarrow> DataSourceError shapefile_path
                 | Some shapefile_gdf \<Rightarrow> KeyError ''Address''), fs) \<and>
         link_tables scorer csv_df shapefile_gdf = Inl (KeyError ''Address'')"
  using assms
  by (simp add: fuzzy_match_addresses_def read_csv_def read_file_def link_tables_def getitem_def
      split: option.splits)

theorem missing_address_column_witness:
  "tables (example_fs no_address_column one_parcel) ''sale.csv'' = Some no_address_column \<and>
   ''Address'' \<notin> set (columns no_address_column) \<and>
   fuzzy_match_addresses (\<lambda>a b. 100) ''sale.csv'' ''prcl.shp'' ''out.csv''
       (example_fs no_address_column one_parcel) =
     (Inl (KeyError ''Address''), example_fs no_address_column one_parcel)"
  using missing_address_column[of "example_fs no_address_column one_parcel" "''sale.csv''"
          no_address_column "\<lambda>a b. 100" "''prcl.shp''" "''out.csv''"]
  by (simp add: example_fs_def no_address_column_def)

text \<open>
  Claim C1, evaluated on the program. One input record whose best score (0) is below the
  threshold 25: the resolver ends normally and the linked table it writes has no row, so
  the record is dropped. The second merge is an inner join, where the first one is a
  left join.
\<close>

theorem unmatched_record_dropped:
  "fst (fuzzy_match_addresses (\<lambda>a b. 0) ''sale.csv'' ''prcl.shp'' ''out.csv''
          (example_fs one_record one_parcel)) = Inr () \<and>
   map_option rows (written (snd (fuzzy_match_addresses (\<lambda>a b. 0) ''sale.csv'' ''prcl.shp'' ''out.csv''
          (example_fs one_record one_parcel))) ''out.csv'') = Some []"
  by (simp add: fuzzy_match_addresses_def read_csv_def read_file_def link_tables_def getitem_def setitem_def
      example_fs_def one_record_def one_parcel_def col_index_def cell_at_def get_best_match_def
      extractOne_def DataFrame_def merge_def drop_at_def to_csv_def imperfect_matches_def
      select_rows_def Let_def)

text \<open>
  Claim C2, evaluated on the program. With an empty list of choices \<open>get_best_match\<close>
  raises TypeError for every address (\<open>extractOne\<close> returns \<open>None\<close>, which cannot be
  unpacked); a resolver run of one record against an empty reference table ends with
  that error and writes nothing.
\<close>

theorem empty_reference_raises:
  "get_best_match address [] scorer threshold = Inl TypeError \<and>
   fuzzy_match_addresses scorer ''sale.csv'' ''prcl.shp'' ''out.csv'' (example_fs one_record no_parcel) =
     (Inl TypeError, example_fs one_record no_parcel)"
  by (cases address)
     (simp_all add: fuzzy_match_addresses_def read_csv_def read_file_def link_tables_def getitem_def setitem_def
      example_fs_def one_record_def no_parcel_def col_index_def cell_at_def get_best_match_def
      extractOne_def Let_def)

text \<open>
  The first merge joins every row of the input with every entry of the match list that
  has the same address: an address that occurs twice has two entries, and four rows in
  the linked table.
\<close>

lemma duplicate_address_fan_out:
  "map_option (\<lambda>df. length (rows df))
     (case link_tables (\<lambda>a b. 40) same_address_twice main_st_parcel of
        Inl e \<Rightarrow> None | Inr df \<Rightarrow> Some df) = Some 4"
  by (simp add: link_tables_def getitem_def setitem_def same_address_twice_def main_st_parcel_def
      col_index_def cell_at_def get_best_match_def extractOne_def DataFrame_def merge_def
      drop_at_def Let_def)

section \<open>The matcher finds exactly the language\<close>

lemma count_ok_0: "count_ok lo hi 0 \<longleftrightarrow> lo = 0"
  by (auto simp: count_ok_def split: option.splits)

lemma count_ok_Suc: "count_ok lo hi (Suc k) \<longleftrightarrow> hi \<noteq> Some 0 \<and> count_ok (lo - 1) (map_option (\<lambda>h. h - 1) hi) k"
  by (auto simp: count_ok_def split: option.splits)

lemma reps_unfold:
  "reps L lo hi s =
     (if lo = 0 then {([], s)} else {}) \<union>
     (if hi = Some 0 then {}
      else {(c1 @ c2, s2) | c1 c2 s1 s2. (c1, s1) \<in> splits L s \<and> length s1 < length s \<and>
              (c2, s2) \<in> reps L (lo - 1) (map_option (\<lambda>h. h - 1) hi) s1})"
  (is "?A = ?B")
proof (rule set_eqI, rule iffI)
  fix x assume "x \<in> ?A"
  then obtain c s' u k where x: "x = (c, s')" and s: "s = u @ s'" and k: "count_ok lo hi k"
    and it: "(u, c) \<in> iter L k"
    by (auto simp: reps_def)
  show "x \<in> ?B"
  proof (cases k)
    case 0
    with it k s x show ?thesis by (simp add: count_ok_0)
  next
    case (Suc j)
    with it obtain u1 c1 u2 c2 where u: "u = u1 @ u2" and c: "c = c1 @ c2"
      and 1: "(u1, c1) \<in> L" and ne: "u1 \<noteq> []" and 2: "(u2, c2) \<in> iter L j"
      by auto
    from k Suc have hi: "hi \<noteq> Some 0" and k': "count_ok (lo - 1) (map_option (\<lambda>h. h - 1) hi) j"
      by (simp_all add: count_ok_Suc)
    have a: "(c1, u2 @ s') \<in> splits L s" using 1 s u by (auto simp: splits_def)
    have b: "length (u2 @ s') < length s" using ne s u by simp
    have d: "(c2, s') \<in> reps L (lo - 1) (map_option (\<lambda>h. h - 1) hi) (u2 @ s')"
      using 2 k' by (auto simp: reps_def)
    have "x \<in> {(c1 @ c2, s2) | c1 c2 s1 s2. (c1, s1) \<in> splits L s \<and> length s1 < length s \<and>
              (c2, s2) \<in> reps L (lo - 1) (map_option (\<lambda>h. h - 1) hi) s1}"
      using a b d x c by blast
    with hi show ?thesis by simp
  qed
next
  fix x assume "x \<in> ?B"
  then consider (stop) "lo = 0" "x = ([], s)"
    | (more) c1 c2 s1 s2 where "hi \<noteq> Some 0" "x = (c1 @ c2, s2)" "(c1, s1) \<in> splits L s"
        "length s1 < length s" "(c2, s2) \<in> reps L (lo - 1) (map_option (\<lambda>h. h - 1) hi) s1"
    by (auto split: if_splits)
  then show "x \<in> ?A"
  proof cases
    case stop
    have "count_ok lo hi 0" using stop by (simp add: count_ok_0)
    moreover have "([], []) \<in> iter L 0" by simp
    ultimately show ?thesis using stop unfolding reps_def by force
  next
    case more
    from more(3) obtain u1 where s: "s = u1 @ s1" and 1: "(u1, c1) \<in> L"
      by (auto simp: splits_def)
    from more(5) obtain u2 j where s1: "s1 = u2 @ s2"
      and j: "count_ok (lo - 1) (map_option (\<lambda>h. h - 1) hi) j" and 2: "(u2, c2) \<in> iter L j"
      by (auto simp: reps_def)
    have ne: "u1 \<noteq> []" using more(4) s by auto
    have "count_ok lo hi (Suc j)" using j more(1) by (simp add: count_ok_Suc)
    moreover have "(u1 @ u2, c1 @ c2) \<in> iter L (Suc j)" using 1 2 ne by auto
    moreover have "s = (u1 @ u2) @ s2" using s s1 by simp
    ultimately show ?thesis using more(2) unfolding reps_def by blast
  qed
qed

lemma set_repeat:
  "(\<And>s. set (f s) = splits L s) \<Longrightarrow> set (repeat f g lo hi s) = reps L lo hi s"
proof (induction f g lo hi s rule: repeat.induct)
  case (1 f g lo hi s)
  have IH: "\<And>c1 s1. hi \<noteq> Some 0 \<Longrightarrow> (c1, s1) \<in> set (f s) \<Longrightarrow> length s1 < length s \<Longrightarrow>
      set (repeat f g (lo - 1) (map_option (\<lambda>h. h - 1) hi) s1)
        = reps L (lo - 1) (map_option (\<lambda>h. h - 1) hi) s1"
    using "1.IH" "1.prems" by blast
  have more: "hi \<noteq> Some 0 \<Longrightarrow>
      set (concat (map (\<lambda>(c1, s1).
                         if length s1 < length s
                         then map (\<lambda>(c2, s2). (c1 @ c2, s2))
                                (repeat f g (lo - 1) (map_option (\<lambda>h. h - 1) hi) s1)
                         else []) (f s)))
       = {(c1 @ c2, s2) | c1 c2 s1 s2. (c1, s1) \<in> splits L s \<and> length s1 < length s \<and>
              (c2, s2) \<in> reps L (lo - 1) (map_option (\<lambda>h. h - 1) hi) s1}" (is "_ \<Longrightarrow> ?lhs = ?rhs")
  proof -
    assume hi: "hi \<noteq> Some 0"
    show "?lhs = ?rhs"
    proof (rule set_eqI, rule iffI)
      fix x assume "x \<in> ?lhs"
      then obtain c1 s1 c2 s2 where a: "(c1, s1) \<in> set (f s)" and b: "length s1 < length s"
        and c: "(c2, s2) \<in> set (repeat f g (lo - 1) (map_option (\<lambda>h. h - 1) hi) s1)"
        and x: "x = (c1 @ c2, s2)"
        by (fastforce split: if_splits)
      from c IH[OF hi a b] x have "x = (c1 @ c2, s2)"
        "(c2, s2) \<in> reps L (lo - 1) (map_option (\<lambda>h. h - 1) hi) s1"
        by auto
      with a b show "x \<in> ?rhs" unfolding "1.prems"[symmetric] by blast
    next
      fix x assume "x \<in> ?rhs"
      then obtain c1 c2 s1 s2 where x: "x = (c1 @ c2, s2)" and a: "(c1, s1) \<in> set (f s)"
        and b: "length s1 < length s"
        and d: "(c2, s2) \<in> reps L (lo - 1) (map_option (\<lambda>h. h - 1) hi) s1"
        unfolding "1.prems"[symmetric] by blast
      from d IH[OF hi a b] have "(c2, s2) \<in> set (repeat f g (lo - 1) (map_option (\<lambda>h. h - 1) hi) s1)"
        by simp
      then have "x \<in> (\<lambda>(c2, s2). (c1 @ c2, s2)) ` set (repeat f g (lo - 1) (map_option (\<lambda>h. h - 1) hi) s1)"
        using x by force
      with a b show "x \<in> ?lhs" by force
    qed
  qed
  show ?case
    apply (subst repeat.simps)
    apply (subst reps_unfold)
    using more
    apply (cases "hi = Some 0"; cases "lo = 0"; cases g; simp add: Let_def Un_commute)
    done
qed

lemma set_rmatch: "set (rmatch r s) = splits (lang r) s"
proof (induction r arbitrary: s)
  case (One its)
  show ?case by (cases s) (auto simp: splits_def)
next
  case (Seq r1 r2)
  show ?case
  proof (rule set_eqI, rule iffI)
    fix x assume "x \<in> set (rmatch (Seq r1 r2) s)"
    then obtain c1 s1 c2 s2 where a: "(c1, s1) \<in> set (rmatch r1 s)"
      and b: "(c2, s2) \<in> set (rmatch r2 s1)" and x: "x = (c1 @ c2, s2)"
      by fastforce
    from a obtain u1 where "s = u1 @ s1" "(u1, c1) \<in> lang r1"
      unfolding Seq.IH splits_def by blast
    moreover from b obtain u2 where "s1 = u2 @ s2" "(u2, c2) \<in> lang r2"
      unfolding Seq.IH splits_def by blast
    ultimately have "s = (u1 @ u2) @ s2 \<and> (u1 @ u2, c1 @ c2) \<in> lang (Seq r1 r2)"
      by auto
    then show "x \<in> splits (lang (Seq r1 r2)) s"
      unfolding splits_def x by blast
  next
    fix x assume "x \<in> splits (lang (Seq r1 r2)) s"
    then obtain u1 c1 u2 c2 s2 where x: "x = (c1 @ c2, s2)" and s: "s = (u1 @ u2) @ s2"
      and 1: "(u1, c1) \<in> lang r1" and 2: "(u2, c2) \<in> lang r2"
      by (auto simp: splits_def)
    have a: "(c1, u2 @ s2) \<in> set (rmatch r1 s)"
      unfolding Seq.IH splits_def using 1 s by auto
    have b: "(c2, s2) \<in> set (rmatch r2 (u2 @ s2))"
      unfolding Seq.IH splits_def using 2 by auto
    from a b show "x \<in> set (rmatch (Seq r1 r2) s)"
      unfolding x by force
  qed
next
  case (Group n r)
  show ?case
  proof (rule set_eqI, rule iffI)
    fix x assume "x \<in> set (rmatch (Group n r) s)"
    then obtain c s' where a: "(c, s') \<in> set (rmatch r s)"
      and x: "x = (c @ [(n, take (length s - length s') s)], s')"
      by auto
    from a obtain u where "s = u @ s'" "(u, c) \<in> lang r"
      unfolding Group.IH splits_def by blast
    then show "x \<in> splits (lang (Group n r)) s"
      unfolding splits_def x by auto
  next
    fix x assume "x \<in> splits (lang (Group n r)) s"
    then obtain u c s' where x: "x = (c @ [(n, u)], s')" and s: "s = u @ s'"
      and 1: "(u, c) \<in> lang r"
      by (auto simp: splits_def)
    have "(c, s') \<in> set (rmatch r s)"
      unfolding Group.IH splits_def using 1 s by auto
    then have "(c @ [(n, take (length s - length s') s)], s') \<in> set (rmatch (Group n r) s)"
      by force
    then show "x \<in> set (rmatch (Group n r) s)"
      unfolding x using s by simp
  qed
next
  case (Repeat lo hi g r)
  have "set (repeat (rmatch r) g lo hi s) = reps (lang r) lo hi s"
    by (rule set_repeat) (rule Repeat.IH)
  then show ?case by (auto simp: reps_def splits_def)
qed

lemma findall_sound: "c \<in> set (findall r s) \<Longrightarrow> occurs r s c"
proof (induction r s rule: findall.induct)
  case (1 r s)
  show ?case
  proof (cases "rmatch r s")
    case Nil
    show ?thesis
    proof (cases s)
      case Nil
      with \<open>rmatch r s = []\<close> "1.prems" show ?thesis
        by (simp add: findall.simps[of r "[]"])
    next
      case (Cons x t)
      with \<open>rmatch r s = []\<close> "1.prems" have "c \<in> set (findall r t)"
        by (simp add: findall.simps[of r "x # t"])
      with "1.IH"(1)[OF \<open>rmatch r s = []\<close> Cons] have "occurs r t c" by simp
      then obtain pre u suf where "t = pre @ u @ suf" "(u, c) \<in> lang r"
        by (auto simp: occurs_def)
      then have "s = (x # pre) @ u @ suf" using Cons by simp
      with \<open>(u, c) \<in> lang r\<close> show ?thesis unfolding occurs_def by blast
    qed
  next
    case (Cons p ps)
    obtain c0 s' where p: "p = (c0, s')" by (cases p)
    have "(c0, s') \<in> set (rmatch r s)" using Cons p by simp
    then obtain u where u: "s = u @ s'" "(u, c0) \<in> lang r"
      by (auto simp: set_rmatch splits_def)
    have here: "occurs r s c0"
      unfolding occurs_def using u by (intro exI[of _ "[]"] exI[of _ u] exI[of _ s']) simp
    show ?thesis
    proof (cases "length s' < length s")
      case True
      with Cons p "1.prems" have "c = c0 \<or> c \<in> set (findall r s')"
        by (simp add: findall.simps[of r s])
      then show ?thesis
      proof
        assume "c = c0" with here show ?thesis by simp
      next
        assume "c \<in> set (findall r s')"
        with "1.IH"(2)[OF Cons p[symmetric] True] have "occurs r s' c" by simp
        then obtain pre v suf where "s' = pre @ v @ suf" "(v, c) \<in> lang r"
          by (auto simp: occurs_def)
        then have "s = (u @ pre) @ v @ suf" using u by simp
        with \<open>(v, c) \<in> lang r\<close> show ?thesis unfolding occurs_def by blast
      qed
    next
      case False
      show ?thesis
      proof (cases s)
        case Nil
        with Cons p "1.prems" False have "c = c0" by (simp add: findall.simps[of r "[]"])
        with here show ?thesis by simp
      next
        case (Cons x t)
        with \<open>rmatch r s = p # ps\<close> p "1.prems" False have "c = c0 \<or> c \<in> set (findall r t)"
          by (simp add: findall.simps[of r "x # t"])
        then show ?thesis
        proof
          assume "c = c0" with here show ?thesis by simp
        next
          assume "c \<in> set (findall r t)"
          with "1.IH"(3)[OF \<open>rmatch r s = p # ps\<close> p[symmetric] False Cons]
          have "occurs r t c" by simp
          then obtain pre v suf where "t = pre @ v @ suf" "(v, c) \<in> lang r"
            by (auto simp: occurs_def)
          then have "s = (x # pre) @ v @ suf" using Cons by simp
          with \<open>(v, c) \<in> lang r\<close> show ?thesis unfolding occurs_def by blast
        qed
      qed
    qed
  qed
qed

lemma findall_complete: "occurs r s c \<Longrightarrow> findall r s \<noteq> []"
proof (induction r s rule: findall.induct)
  case (1 r s)
  show ?case
  proof (cases "rmatch r s")
    case Nil
    from "1.prems" obtain pre u suf where s: "s = pre @ u @ suf" and l: "(u, c) \<in> lang r"
      by (auto simp: occurs_def)
    have "pre \<noteq> []"
    proof
      assume "pre = []"
      with s l have "(c, suf) \<in> splits (lang r) s" by (auto simp: splits_def)
      with Nil show False by (simp add: set_rmatch[symmetric])
    qed
    then obtain x pre' where pre: "pre = x # pre'" by (cases pre) auto
    with s have st: "s = x # (pre' @ u @ suf)" by simp
    have "occurs r (pre' @ u @ suf) c" unfolding occurs_def using l by blast
    with "1.IH"(1)[OF Nil st] have "findall r (pre' @ u @ suf) \<noteq> []" by simp
    moreover have "findall r s = findall r (pre' @ u @ suf)"
      using Nil unfolding st by (subst findall.simps) simp
    ultimately show ?thesis by simp
  next
    case (Cons p ps)
    obtain c0 s' where "p = (c0, s')" by (cases p)
    with Cons have "findall r s =
        (if length s' < length s then c0 # findall r s'
         else (case s of [] \<Rightarrow> [c0] | _ # t \<Rightarrow> c0 # findall r t))"
      by (subst findall.simps) simp
    then show ?thesis by (simp split: list.splits)
  qed
qed

lemma findall_empty_iff: "findall r s = [] \<longleftrightarrow> (\<nexists>c. occurs r s c)"
proof
  assume "findall r s = []"
  then show "\<nexists>c. occurs r s c" using findall_complete by blast
next
  assume "\<nexists>c. occurs r s c"
  show "findall r s = []"
  proof (cases "findall r s")
    case Nil then show ?thesis .
  next
    case (Cons c cs)
    then have "c \<in> set (findall r s)" by simp
    with findall_sound[of c r s] \<open>\<nexists>c. occurs r s c\<close> show ?thesis by blast
  qed
qed

section \<open>The language of the program's pattern\<close>

lemma pattern_parts:
  "pattern = Seq (Group 1 identifier_re) (Seq spaces_re (Seq (Group 2 owner_re) (Seq spaces_re
     (Seq (Group 3 address_re) (Seq spaces_re (Seq (One [Lit CHR ''$'']) (Group 4 amount_re)))))))"
  by (simp add: pattern_def identifier_re_def spaces_re_def owner_re_def address_re_def
      amount_re_def comma_group_re_def digits_re_def)

lemma iter_One:
  "(u, c) \<in> iter (lang (One its)) k \<longleftrightarrow> c = [] \<and> length u = k \<and> list_all (cls_ok its) u"
proof (induction k arbitrary: u c)
  case 0
  show ?case by auto
next
  case (Suc k)
  show ?case
  proof
    assume "(u, c) \<in> iter (lang (One its)) (Suc k)"
    then obtain ch u2 c2 where "u = [ch] @ u2" "c = [] @ c2" "cls_ok its ch"
      "(u2, c2) \<in> iter (lang (One its)) k"
      by auto
    with Suc.IH[of u2 c2] show "c = [] \<and> length u = Suc k \<and> list_all (cls_ok its) u" by simp
  next
    assume a: "c = [] \<and> length u = Suc k \<and> list_all (cls_ok its) u"
    then obtain ch u2 where u: "u = ch # u2" by (cases u) auto
    with a have "cls_ok its ch" "(u2, []) \<in> iter (lang (One its)) k"
      using Suc.IH[of u2 "[]"] by auto
    then have "([ch] @ u2, [] @ []) \<in> iter (lang (One its)) (Suc k)"
      unfolding iter.simps lang.simps by blast
    with a u show "(u, c) \<in> iter (lang (One its)) (Suc k)" by simp
  qed
qed

lemma lang_Repeat_One:
  "(u, c) \<in> lang (Repeat lo hi g (One its)) \<longleftrightarrow>
     c = [] \<and> count_ok lo hi (length u) \<and> list_all (cls_ok its) u"
  unfolding lang.simps(4) by (auto simp: iter_One simp del: lang.simps)

lemma lang_Seq:
  "(u, c) \<in> lang (Seq r1 r2) \<longleftrightarrow>
     (\<exists>u1 c1 u2 c2. u = u1 @ u2 \<and> c = c1 @ c2 \<and> (u1, c1) \<in> lang r1 \<and> (u2, c2) \<in> lang r2)"
  by auto

lemma lang_Group:
  "(u, c) \<in> lang (Group n r) \<longleftrightarrow> (\<exists>c'. c = c' @ [(n, u)] \<and> (u, c') \<in> lang r)"
  by auto

lemma lang_Lit: "(u, c) \<in> lang (One [Lit l]) \<longleftrightarrow> c = [] \<and> u = [l]"
  by (auto simp: cls_ok_def)

lemma lang_Space: "(u, c) \<in> lang (One [Space]) \<longleftrightarrow> c = [] \<and> (\<exists>w. u = [w] \<and> is_space w)"
  by (auto simp: cls_ok_def)

lemma lang_digits_re:
  "(u, c) \<in> lang (digits_re lo hi) \<longleftrightarrow>
     c = [] \<and> lo \<le> length u \<and> length u \<le> hi \<and> list_all is_digit u"
  unfolding digits_re_def lang_Repeat_One by (auto simp: count_ok_def cls_ok_def[abs_def])

lemma lang_spaces_re:
  "(u, c) \<in> lang spaces_re \<longleftrightarrow> c = [] \<and> u \<noteq> [] \<and> list_all is_space u"
  unfolding spaces_re_def lang_Repeat_One
  by (cases u) (auto simp: count_ok_def cls_ok_def[abs_def])

lemma lang_owner_re:
  "(u, c) \<in> lang owner_re \<longleftrightarrow> c = [] \<and> u \<noteq> [] \<and> CHR 0x0A \<notin> set u"
  unfolding owner_re_def lang_Repeat_One
  by (cases u) (auto simp: count_ok_def cls_ok_def[abs_def] list_all_iff)

lemma length3: "length u = 3 \<longleftrightarrow> (\<exists>x y z. u = [x, y, z])"
  by (auto simp: length_Suc_conv numeral_3_eq_3)

lemma length2: "length u = 2 \<longleftrightarrow> (\<exists>x y. u = [x, y])"
  by (auto simp: length_Suc_conv numeral_2_eq_2)

lemma digits3:
  "(u, c) \<in> lang (digits_re 3 3) \<longleftrightarrow>
     c = [] \<and> (\<exists>x y z. u = [x, y, z] \<and> is_digit x \<and> is_digit y \<and> is_digit z)"
proof -
  have "(3 \<le> length u \<and> length u \<le> 3) = (length u = 3)" by auto
  then show ?thesis unfolding lang_digits_re by (auto simp: length3)
qed

lemma digits2:
  "(u, c) \<in> lang (digits_re 2 2) \<longleftrightarrow>
     c = [] \<and> (\<exists>x y. u = [x, y] \<and> is_digit x \<and> is_digit y)"
proof -
  have "(2 \<le> length u \<and> length u \<le> 2) = (length u = 2)" by auto
  then show ?thesis unfolding lang_digits_re by (auto simp: length2)
qed

lemma lang_optional:
  "(u, c) \<in> lang (Repeat 0 (Some 1) g r) \<longleftrightarrow> (u = [] \<and> c = []) \<or> (u \<noteq> [] \<and> (u, c) \<in> lang r)"
proof -
  have k: "count_ok 0 (Some 1) k \<longleftrightarrow> k = 0 \<or> k = Suc 0" for k
    by (auto simp: count_ok_def)
  have "(u, c) \<in> lang (Repeat 0 (Some 1) g r) \<longleftrightarrow>
      (u, c) \<in> iter (lang r) 0 \<or> (u, c) \<in> iter (lang r) (Suc 0)"
    unfolding lang.simps(4) mem_Collect_eq k by blast
  then show ?thesis by (auto simp del: lang.simps)
qed

lemma lang_identifier_re:
  "(u, c) \<in> lang identifier_re \<Longrightarrow> c = [] \<and> identifier_shape u"
  unfolding identifier_re_def lang_Seq lang_optional digits3 lang_Lit
  by (auto simp: identifier_shape_def)

lemma lang_address_re:
  "(u, c) \<in> lang address_re \<Longrightarrow> c = [] \<and> address_shape u"
proof -
  assume "(u, c) \<in> lang address_re"
  then obtain ds w cs where u: "u = ds @ [w] @ cs" and c: "c = []"
    and ds: "1 \<le> length ds" "length ds \<le> 5" "list_all is_digit ds"
    and w: "is_space w" and cs1: "1 \<le> length cs" and cs2: "list_all address_char cs"
    unfolding address_re_def lang_Seq lang_digits_re lang_Space lang_Repeat_One
    by (auto simp: count_ok_def cls_ok_def[abs_def] address_char_def[abs_def])
  have nd: "\<not> is_digit w" using w by (auto simp: is_digit_def is_space_def Let_def)
  have "takeWhile is_digit u = ds" "dropWhile is_digit u = w # cs"
    using ds(3) nd unfolding u by (simp_all add: list_all_iff takeWhile_tail dropWhile_append3)
  moreover have "cs \<noteq> []" using cs1 by auto
  ultimately show ?thesis using ds w cs2 c by (simp add: address_shape_def)
qed

lemma iter_comma_group:
  "(u, c) \<in> iter (lang comma_group_re) k \<Longrightarrow>
     c = [] \<and> comma_groups (u @ rest) = comma_groups rest \<and> (u = [] \<or> (\<exists>t. u = CHR '','' # t))"
proof (induction k arbitrary: u c)
  case 0
  then show ?case by simp
next
  case (Suc k)
  from Suc.prems obtain u1 c1 u2 c2 where u: "u = u1 @ u2" and c: "c = c1 @ c2"
    and 1: "(u1, c1) \<in> lang comma_group_re" and 2: "(u2, c2) \<in> iter (lang comma_group_re) k"
    by (auto simp del: lang.simps)
  from 1 obtain x y z where u1: "u1 = [CHR '','', x, y, z]" and c1: "c1 = []"
    and d: "is_digit x" "is_digit y" "is_digit z"
    unfolding comma_group_re_def lang_Seq lang_Lit digits3 by auto
  from Suc.IH[OF 2] have "c2 = []" "comma_groups (u2 @ rest) = comma_groups rest" by simp_all
  with u c u1 c1 d show ?case by simp
qed

lemma lang_amount_re:
  assumes "(u, c) \<in> lang amount_re"
  shows "c = []" and "amount_shape u" and "amount_ending u"
    and "\<exists>n sep t. u = n @ sep # t \<and> 1 \<le> length n \<and> length n \<le> 3 \<and> list_all is_digit n \<and>
           \<not> is_digit sep"
proof -
  from assms obtain n cn gs c2 p cp xy cxy where u0: "u = n @ gs @ p @ xy"
    and c0: "c = cn @ c2 @ cp @ cxy"
    and n0: "(n, cn) \<in> lang (digits_re 1 3)"
    and gs: "(gs, c2) \<in> lang (Repeat 0 None True comma_group_re)"
    and p0: "(p, cp) \<in> lang (One [Lit CHR ''.''])" and xy0: "(xy, cxy) \<in> lang (digits_re 2 2)"
    unfolding amount_re_def lang_Seq by blast
  from n0 have n: "1 \<le> length n" "length n \<le> 3" "list_all is_digit n" and cn: "cn = []"
    unfolding lang_digits_re by simp_all
  from p0 have p: "p = [CHR ''.'']" and cp: "cp = []" unfolding lang_Lit by simp_all
  from xy0 obtain x y where xy1: "xy = [x, y]" and xy: "is_digit x" "is_digit y" and cxy: "cxy = []"
    unfolding digits2 by blast
  have u: "u = n @ gs @ [CHR ''.'', x, y]" using u0 p xy1 by simp
  have c: "c = c2" using c0 cn cp cxy by simp
  from gs obtain k where k: "(gs, c2) \<in> iter (lang comma_group_re) k"
    unfolding lang.simps(4) by blast
  from iter_comma_group[OF k, of "[CHR ''.'', x, y]"]
  have c2: "c2 = []" and cg: "comma_groups (gs @ [CHR ''.'', x, y]) = comma_groups [CHR ''.'', x, y]"
    and hd: "gs = [] \<or> (\<exists>t. gs = CHR '','' # t)" by simp_all
  show "c = []" using c c2 by simp
  have nd1: "\<not> is_digit CHR ''.''" "\<not> is_digit CHR '',''" by (simp_all add: is_digit_def)
  from hd obtain sep t where st: "gs @ [CHR ''.'', x, y] = sep # t" "\<not> is_digit sep"
    using nd1 by auto
  have tw: "takeWhile is_digit u = n" "dropWhile is_digit u = gs @ [CHR ''.'', x, y]"
    using n(3) st unfolding u
    by (simp_all add: list_all_iff takeWhile_tail dropWhile_append3)
  have "comma_groups [CHR ''.'', x, y]" using xy by simp
  with tw cg n show "amount_shape u" by (simp add: amount_shape_def)
  show "amount_ending u" using xy unfolding u by (simp add: amount_ending_def)
  show "\<exists>n sep t. u = n @ sep # t \<and> 1 \<le> length n \<and> length n \<le> 3 \<and> list_all is_digit n \<and>
           \<not> is_digit sep"
    using st n unfolding u by blast
qed

lemma lang_pattern:
  assumes "(u, c) \<in> lang pattern"
  shows "\<exists>i ws1 ow ws2 ad ws3 am.
           u = i @ ws1 @ ow @ ws2 @ ad @ ws3 @ CHR ''$'' # am \<and>
           c = [(1, i), (2, ow), (3, ad), (4, am)] \<and>
           (i, []) \<in> lang identifier_re \<and> (ow, []) \<in> lang owner_re \<and>
           (ad, []) \<in> lang address_re \<and> (am, []) \<in> lang amount_re"
proof -
  from assms obtain i ci ws1 ow co ws2 ad ca ws3 am cm where
    u: "u = i @ ws1 @ ow @ ws2 @ ad @ ws3 @ [CHR ''$''] @ am"
    and c: "c = (ci @ [(1, i)]) @ [] @ (co @ [(2, ow)]) @ [] @ (ca @ [(3, ad)]) @ [] @ [] @ (cm @ [(4, am)])"
    and i: "(i, ci) \<in> lang identifier_re" and ow: "(ow, co) \<in> lang owner_re"
    and ad: "(ad, ca) \<in> lang address_re" and am: "(am, cm) \<in> lang amount_re"
    unfolding pattern_parts lang_Seq lang_Group lang_Lit lang_spaces_re by blast
  have "ci = []" using lang_identifier_re[OF i] by simp
  moreover have "co = []" using ow unfolding lang_owner_re by simp
  moreover have "ca = []" using lang_address_re[OF ad] by simp
  moreover have "cm = []" using lang_amount_re(1)[OF am] .
  ultimately show ?thesis using u c i ow ad am by auto
qed

lemma ngroups_pattern: "ngroups pattern = 4"
  by (simp add: pattern_def)

lemma record_of_match:
  "c = [(1, i), (2, ow), (3, ad), (4, am)] \<Longrightarrow>
   map (grp c) [1 ..< Suc (ngroups pattern)] = [i, ow, ad, am]"
  by (simp add: ngroups_pattern grp_def upt_rec)

lemma record_occurs:
  assumes "r \<in> set (re_findall pattern text)"
  shows "\<exists>c. occurs pattern text c \<and> r = map (grp c) [1 ..< Suc (ngroups pattern)]"
proof -
  from assms obtain c where "c \<in> set (findall pattern text)"
    "r = map (grp c) [1 ..< Suc (ngroups pattern)]"
    unfolding re_findall_def set_map by blast
  with findall_sound[of c pattern "text"] show ?thesis by blast
qed

lemma record_shape_findall:
  assumes "r \<in> set (re_findall pattern text)"
  shows "record_shape r"
proof -
  from record_occurs[OF assms] obtain c pre u suf where
    r: "r = map (grp c) [1 ..< Suc (ngroups pattern)]" and "(u, c) \<in> lang pattern"
    unfolding occurs_def by blast
  from lang_pattern[OF this(2)] obtain i ow ad am where
    c: "c = [(1, i), (2, ow), (3, ad), (4, am)]"
    and i: "(i, []) \<in> lang identifier_re" and ad: "(ad, []) \<in> lang address_re"
    and am: "(am, []) \<in> lang amount_re"
    by blast
  have "r = [i, ow, ad, am]" unfolding r by (rule record_of_match[OF c])
  then show ?thesis
    using lang_identifier_re[OF i] lang_address_re[OF ad] lang_amount_re(3)[OF am]
    by (simp add: record_shape_def)
qed

lemma split_at_only:
  assumes "p @ x # d = a @ x # b" and "x \<notin> set p" and "x \<notin> set d"
  shows "p = a \<and> d = b"
proof -
  from assms(1) consider (eq) "p = a" "d = b"
    | (left) z where "a = p @ x # z" "d = z @ x # b"
    | (right) z where "p = a @ x # z"
    by (auto simp: append_eq_append_conv2 Cons_eq_append_conv append_eq_Cons_conv)
  then show ?thesis
  proof cases
    case eq then show ?thesis by simp
  next
    case left with assms(3) show ?thesis by simp
  next
    case right with assms(2) show ?thesis by simp
  qed
qed

lemma occurs_dollar:
  assumes "occurs pattern text c"
  shows "\<exists>a n sep t. text = a @ CHR ''$'' # n @ sep # t \<and> 1 \<le> length n \<and> length n \<le> 3 \<and>
           list_all is_digit n \<and> \<not> is_digit sep"
proof -
  from assms obtain pre u suf where tx: "text = pre @ u @ suf" and "(u, c) \<in> lang pattern"
    unfolding occurs_def by blast
  from lang_pattern[OF this(2)] obtain i ws1 ow ws2 ad ws3 am where
    u: "u = i @ ws1 @ ow @ ws2 @ ad @ ws3 @ CHR ''$'' # am" and am: "(am, []) \<in> lang amount_re"
    by blast
  from lang_amount_re(4)[OF am] obtain n sep t where
    "am = n @ sep # t" "1 \<le> length n" "length n \<le> 3" "list_all is_digit n" "\<not> is_digit sep"
    by blast
  moreover from this(1) have "text = (pre @ i @ ws1 @ ow @ ws2 @ ad @ ws3) @ CHR ''$'' # n @ sep # (t @ suf)"
    unfolding tx u by simp
  ultimately show ?thesis by blast
qed

lemma no_match_without_separator:
  assumes "CHR ''$'' \<notin> set pre" and "CHR ''$'' \<notin> set rest"
    and "list_all is_digit ds" and "4 \<le> length ds"
  shows "\<not> occurs pattern (pre @ CHR ''$'' # ds @ rest) c"
proof
  assume "occurs pattern (pre @ CHR ''$'' # ds @ rest) c"
  from occurs_dollar[OF this] obtain a n sep t where
    eq: "pre @ CHR ''$'' # ds @ rest = a @ CHR ''$'' # n @ sep # t"
    and n: "1 \<le> length n" "length n \<le> 3" "list_all is_digit n" and sep: "\<not> is_digit sep"
    by blast
  have "\<not> is_digit CHR ''$''" by (simp add: is_digit_def)
  with assms(3) have "CHR ''$'' \<notin> set ds" by (auto simp: list_all_iff)
  with assms(2) have "CHR ''$'' \<notin> set (ds @ rest)" by simp
  from split_at_only[OF eq assms(1) this] have d: "ds @ rest = n @ sep # t" by simp
  have "(ds @ rest) ! length n = ds ! length n" using n(2) assms(4) by (simp add: nth_append)
  moreover have "(n @ sep # t) ! length n = sep" by simp
  ultimately have "ds ! length n = sep" using d by simp
  moreover have "is_digit (ds ! length n)"
    using assms(3,4) n(2) by (simp add: list_all_length)
  ultimately show False using sep by simp
qed

lemma lang_pattern_digit:
  assumes "(u, c) \<in> lang pattern"
  shows "\<exists>d t. u = d # t \<and> is_digit d"
proof -
  from lang_pattern[OF assms] obtain i rest where u: "u = i @ rest"
    and i: "(i, []) \<in> lang identifier_re" by blast
  from lang_identifier_re[OF i] have "identifier_shape i" by simp
  then obtain d t where "i = d # t" "is_digit d"
    by (cases i) (auto simp: identifier_shape_def)
  with u show ?thesis by simp
qed

lemma rmatch_needs_digit: "\<not> is_digit x \<Longrightarrow> rmatch pattern (x # t) = []"
proof (rule ccontr)
  assume nd: "\<not> is_digit x" and "rmatch pattern (x # t) \<noteq> []"
  then obtain c s' where "(c, s') \<in> set (rmatch pattern (x # t))"
    by (cases "rmatch pattern (x # t)") auto
  then obtain u where "x # t = u @ s'" "(u, c) \<in> lang pattern"
    unfolding set_rmatch splits_def by blast
  with lang_pattern_digit[OF this(2)] nd show False by auto
qed

lemma findall_skip:
  "list_all (\<lambda>c. \<not> is_digit c) pre \<Longrightarrow> findall pattern (pre @ t) = findall pattern t"
proof (induction pre)
  case Nil
  show ?case by simp
next
  case (Cons x pre)
  then have "rmatch pattern (x # pre @ t) = []" by (simp add: rmatch_needs_digit)
  then have "findall pattern ((x # pre) @ t) = findall pattern (pre @ t)"
    by (subst findall.simps) simp
  with Cons show ?case by simp
qed

section \<open>Evaluation of the pattern\<close>

lemma concat_map_Nil: "concat (map (\<lambda>x. []) xs) = []"
  by (induction xs) auto

lemma repeat_Nil: "repeat f g lo hi [] = (if lo = 0 then [([], [])] else [])"
  by (subst repeat.simps) (simp add: Let_def case_prod_unfold concat_map_Nil)

lemma repeat_Cons:
  "repeat f g lo hi (x # t) =
     (let more = (if hi = Some 0 then []
                  else concat (map (\<lambda>(c1, s1).
                         if length s1 < Suc (length t)
                         then map (\<lambda>(c2, s2). (c1 @ c2, s2))
                                (repeat f g (lo - 1) (map_option (\<lambda>h. h - 1) hi) s1)
                         else []) (f (x # t))));
          stop = (if lo = 0 then [([], x # t)] else [])
      in if g then more @ stop else stop @ more)"
  by (subst repeat.simps) simp

lemma repeat_done: "repeat f g lo (Some 0) s = (if lo = 0 then [([], s)] else [])"
  by (subst repeat.simps) (simp add: Let_def)

lemma first_match_literal:
  "\<exists>rest. rmatch pattern (''123-456-789 JOHN DOE 456 Main St. $1,234.56'' @ suf) =
     ([(1, ''123-456-789''), (2, ''JOHN DOE''), (3, ''456 Main St.''), (4, ''1,234.56'')], suf) # rest"
  by (simp add: pattern_def repeat_done repeat_Cons repeat_Nil Let_def cls_ok_def is_digit_def
      is_space_def is_word_def)

lemma findall_one_record:
  assumes "list_all (\<lambda>c. \<not> is_digit c) pre"
  shows "findall pattern (pre @ ''123-456-789 JOHN DOE 456 Main St. $1,234.56'' @ suf) =
     [(1, ''123-456-789''), (2, ''JOHN DOE''), (3, ''456 Main St.''), (4, ''1,234.56'')]
       # findall pattern suf"
proof -
  from first_match_literal[of suf] obtain rest where
    "rmatch pattern (''123-456-789 JOHN DOE 456 Main St. $1,234.56'' @ suf) =
     ([(1, ''123-456-789''), (2, ''JOHN DOE''), (3, ''456 Main St.''), (4, ''1,234.56'')], suf) # rest"
    by blast
  then have "findall pattern (''123-456-789 JOHN DOE 456 Main St. $1,234.56'' @ suf) =
     [(1, ''123-456-789''), (2, ''JOHN DOE''), (3, ''456 Main St.''), (4, ''1,234.56'')]
       # findall pattern suf"
    by (subst findall.simps) simp
  with findall_skip[OF assms] show ?thesis by simp
qed

lemma findall_literal:
  "findall pattern ''123-456-789 JOHN DOE 456 Main St. $1,234.56'' =
     [[(1, ''123-456-789''), (2, ''JOHN DOE''), (3, ''456 Main St.''), (4, ''1,234.56'')]]"
  by code_simp

lemma re_findall_literal:
  "re_findall pattern ''123-456-789 JOHN DOE 456 Main St. $1,234.56'' =
     [[''123-456-789'', ''JOHN DOE'', ''456 Main St.'', ''1,234.56'']]"
  unfolding re_findall_def findall_literal list.map
  by (simp only: record_of_match[OF refl])

lemma findall_no_separator:
  "findall pattern ''123-456-789 JOHN DOE 456 Main St. $1234.56'' = []"
  by code_simp

lemma findall_no_record:
  "findall pattern ''SHERIFF SALE 231 - no parcels listed'' = []"
  by code_simp

lemma findall_empty_text: "findall pattern [] = []"
  by code_simp

lemma findall_page_footer: "findall pattern ''\<newline>Page 1 of 12'' = []"
  by code_simp

lemma shape_values:
  "record_shape [''123-456-789'', ''JOHN DOE'', ''456 Main St.'', ''1,234.56'']"
  "\<not> address_shape ''456''" "\<not> address_shape ''456 ''" "address_shape ''456 M''"
  "\<not> identifier_shape ''123-45''" "identifier_shape ''123-456''"
  "amount_shape ''1,234.56''" "\<not> amount_shape ''1234.56''" "amount_shape ''12,345,678.90''"
  "\<not> amount_ending ''1,234.5''"
  by (simp_all add: record_shape_def identifier_shape_def address_shape_def amount_ending_def
      amount_shape_def is_digit_def is_space_def is_word_def address_char_def)

section \<open>Properties of the extractor\<close>

text \<open>
  Claim C5. From the text \<open>123-456-789 JOHN DOE 456 Main St. $1,234.56\<close> the pattern
  extracts exactly one record, with the fields \<open>123-456-789\<close>, \<open>JOHN DOE\<close>,
  \<open>456 Main St.\<close> and \<open>1,234.56\<close>: the currency symbol is not part of the amount.
  The same holds for a text that contains this one record: the record after any text
  without digits and before any text in which the pattern does not occur. A document with
  such a text is extracted to the table of that one row.
\<close>

theorem extract_literal_record:
  assumes "list_all (\<lambda>c. \<not> is_digit c) pre" and "\<nexists>c. occurs pattern suf c"
  shows "re_findall pattern (pre @ literal_record @ suf) =
           [[''123-456-789'', ''JOHN DOE'', ''456 Main St.'', ''1,234.56'']] \<and>
         (pdfs fs pdf_path = Some (Document pages) \<and>
          full_text pages = pre @ literal_record @ suf \<and> \<not> write_fails fs output_csv \<longrightarrow>
            extract_property_data pdf_path output_csv fs =
              (True, fs\<lparr>written := (written fs)(output_csv \<mapsto> literal_table)\<rparr>))"
proof -
  have "findall pattern suf = []" using assms(2) by (simp add: findall_empty_iff)
  with findall_one_record[OF assms(1), of suf]
  have m: "findall pattern (pre @ literal_record @ suf) =
      [[(1, ''123-456-789''), (2, ''JOHN DOE''), (3, ''456 Main St.''), (4, ''1,234.56'')]]"
    by (simp add: literal_record_def)
  have r: "re_findall pattern (pre @ literal_record @ suf) =
      [[''123-456-789'', ''JOHN DOE'', ''456 Main St.'', ''1,234.56'']]"
    unfolding re_findall_def m list.map by (simp only: record_of_match[OF refl])
  then show ?thesis
    by (simp add: extract_property_data_def to_csv_def literal_table_def)
qed

theorem extract_literal_record_witness:
  "re_findall pattern ''123-456-789 JOHN DOE 456 Main St. $1,234.56'' =
     [[''123-456-789'', ''JOHN DOE'', ''456 Main St.'', ''1,234.56'']] \<and>
   re_findall pattern
       (''Land Tax Sale\<newline>'' @ ''123-456-789 JOHN DOE 456 Main St. $1,234.56'' @ ''\<newline>Page 1 of 12'') =
     [[''123-456-789'', ''JOHN DOE'', ''456 Main St.'', ''1,234.56'']] \<and>
   extract_property_data ''Sale-List-231.pdf'' ''property_tax_sale_231.csv''
       (pdf_fs [Some ''123-456-789 JOHN DOE 456 Main St. $1,234.56'']) =
     (True, (pdf_fs [Some ''123-456-789 JOHN DOE 456 Main St. $1,234.56''])
              \<lparr>written := (\<lambda>p. None)(''property_tax_sale_231.csv'' \<mapsto> literal_table)\<rparr>)"
proof -
  have e: "\<nexists>c. occurs pattern [] c"
    using findall_empty_text by (simp add: findall_empty_iff)
  have f: "\<nexists>c. occurs pattern ''\<newline>Page 1 of 12'' c"
    using findall_page_footer by (simp add: findall_empty_iff)
  have p: "list_all (\<lambda>c. \<not> is_digit c) ''Land Tax Sale\<newline>''" "list_all (\<lambda>c. \<not> is_digit c) []"
    by (simp_all add: is_digit_def)
  let ?fs = "pdf_fs [Some ''123-456-789 JOHN DOE 456 Main St. $1,234.56'']"
  have g: "pdfs ?fs ''Sale-List-231.pdf'' = Some (Document [Some ''123-456-789 JOHN DOE 456 Main St. $1,234.56''])"
    "full_text [Some ''123-456-789 JOHN DOE 456 Main St. $1,234.56''] = [] @ literal_record @ []"
    "\<not> write_fails ?fs ''property_tax_sale_231.csv''" "written ?fs = (\<lambda>p. None)"
    by (simp_all add: pdf_fs_def full_text_def literal_record_def)
  from extract_literal_record[OF p(2) e, of ?fs "''Sale-List-231.pdf''"
         "[Some ''123-456-789 JOHN DOE 456 Main St. $1,234.56'']" "''property_tax_sale_231.csv''"]
       extract_literal_record[OF p(1) f, of ?fs "''Sale-List-231.pdf''"
         "[Some ''123-456-789 JOHN DOE 456 Main St. $1,234.56'']" "''property_tax_sale_231.csv''"]
       g
  show ?thesis by (simp add: literal_record_def)
qed

text \<open>
  Claim C6. When the pattern occurs nowhere in the text of the document, the set of
  records is empty and \<open>extract_property_data\<close> returns \<open>False\<close> (it does not raise)
  and leaves the files as they are: no table is written.
\<close>

theorem no_records_found:
  assumes "pdfs fs pdf_path = Some (Document pages)"
    and "\<nexists>c. occurs pattern (full_text pages) c"
  shows "re_findall pattern (full_text pages) = [] \<and>
         extract_property_data pdf_path output_csv fs = (False, fs)"
proof -
  have "findall pattern (full_text pages) = []"
    using assms(2) by (simp add: findall_empty_iff)
  then have "re_findall pattern (full_text pages) = []" by (simp add: re_findall_def)
  then show ?thesis using assms(1) by (simp add: extract_property_data_def)
qed

theorem no_records_found_witness:
  "pdfs (pdf_fs [Some ''SHERIFF SALE 231 - '', None, Some ''no parcels listed'']) ''Sale-List-231.pdf'' =
     Some (Document [Some ''SHERIFF SALE 231 - '', None, Some ''no parcels listed'']) \<and>
   (\<nexists>c. occurs pattern (full_text [Some ''SHERIFF SALE 231 - '', None, Some ''no parcels listed'']) c) \<and>
   extract_property_data ''Sale-List-231.pdf'' ''property_tax_sale_231.csv''
       (pdf_fs [Some ''SHERIFF SALE 231 - '', None, Some ''no parcels listed'']) =
     (False, pdf_fs [Some ''SHERIFF SALE 231 - '', None, Some ''no parcels listed''])"
proof -
  let ?pages = "[Some ''SHERIFF SALE 231 - '', None, Some ''no parcels listed'']"
  have t: "full_text ?pages = ''SHERIFF SALE 231 - no parcels listed''"
    by (simp add: full_text_def)
  have h1: "pdfs (pdf_fs ?pages) ''Sale-List-231.pdf'' = Some (Document ?pages)"
    by (simp add: pdf_fs_def)
  have h2: "\<nexists>c. occurs pattern (full_text ?pages) c"
    unfolding t using findall_no_record by (simp add: findall_empty_iff)
  from no_records_found[OF h1 h2] h1 h2 show ?thesis by simp
qed

text \<open>
  Claim C9. When the only currency symbol of the text is followed by four or more
  digits, the pattern finds no record: after the symbol it takes one to three digits and
  then needs a comma or the period. In every record an amount is one to three digits,
  then groups of a comma and three digits, then the period and two digits.
\<close>

theorem amount_needs_separators:
  assumes "CHR ''$'' \<notin> set pre" and "CHR ''$'' \<notin> set rest"
    and "list_all is_digit ds" and "4 \<le> length ds"
  shows "re_findall pattern (pre @ CHR ''$'' # ds @ rest) = [] \<and>
         (\<forall>text r. r \<in> set (re_findall pattern text) \<longrightarrow> amount_shape (last r))"
proof -
  have "findall pattern (pre @ CHR ''$'' # ds @ rest) = []"
    using no_match_without_separator[OF assms] by (simp add: findall_empty_iff)
  then have a: "re_findall pattern (pre @ CHR ''$'' # ds @ rest) = []"
    by (simp add: re_findall_def)
  have b: "amount_shape (last r)" if "r \<in> set (re_findall pattern tx)" for tx r
  proof -
    from record_occurs[OF that] obtain c pre u suf where
      r: "r = map (grp c) [1 ..< Suc (ngroups pattern)]" and "(u, c) \<in> lang pattern"
      unfolding occurs_def by blast
    from lang_pattern[OF this(2)] obtain i ow ad am where
      c: "c = [(1, i), (2, ow), (3, ad), (4, am)]" and am: "(am, []) \<in> lang amount_re"
      by blast
    have "r = [i, ow, ad, am]" unfolding r by (rule record_of_match[OF c])
    then show ?thesis using lang_amount_re(2)[OF am] by simp
  qed
  from a b show ?thesis by blast
qed

theorem amount_needs_separators_witness:
  "CHR ''$'' \<notin> set ''123-456-789 JOHN DOE 456 Main St. '' \<and> CHR ''$'' \<notin> set ''.56'' \<and>
   list_all is_digit ''1234'' \<and> 4 \<le> length ''1234'' \<and>
   re_findall pattern ''123-456-789 JOHN DOE 456 Main St. $1234.56'' = []"
proof -
  have h: "CHR ''$'' \<notin> set ''123-456-789 JOHN DOE 456 Main St. ''" "CHR ''$'' \<notin> set ''.56''"
    "list_all is_digit ''1234''" "4 \<le> length ''1234''"
    by (simp_all add: is_digit_def)
  from amount_needs_separators[OF h] h show ?thesis by simp
qed

text \<open>
  Claim C10. Every record that the pattern finds has four fields: the identifier has the
  form \<open>ddd-ddd\<close> or \<open>ddd-ddd-ddd\<close>; the address is one to five digits, a whitespace
  character and at least one more character of the class of word characters, whitespace,
  period, apostrophe and hyphen; the amount ends with a period and two digits. The rows
  of the table written by \<open>extract_property_data\<close> are such records.
\<close>

theorem field_shapes:
  "(r \<in> set (re_findall pattern text) \<longrightarrow> record_shape r) \<and>
   (extract_property_data pdf_path output_csv fs = (True, fs') \<longrightarrow>
      (\<exists>df. written fs' output_csv = Some df \<and>
            (\<forall>row \<in> set (rows df). \<exists>r. row = map Str r \<and> record_shape r)))"
proof (intro conjI impI)
  assume "r \<in> set (re_findall pattern text)"
  then show "record_shape r" by (rule record_shape_findall)
next
  assume a: "extract_property_data pdf_path output_csv fs = (True, fs')"
  then obtain pages where p: "pdfs fs pdf_path = Some (Document pages)"
    by (auto simp: extract_property_data_def split: option.splits pdf_file.splits)
  let ?m = "re_findall pattern (full_text pages)"
  let ?df = "\<lparr>columns = [''Land Tax #'', ''Owner'', ''Address'', ''Total Owed''],
              rows = map (map Str) ?m\<rparr>"
  from a p have "to_csv ?df output_csv fs = Inr fs'"
    by (auto simp: extract_property_data_def Let_def split: if_splits sum.splits)
  then have "written fs' output_csv = Some ?df"
    by (auto simp: to_csv_def split: if_splits)
  moreover have "\<forall>row \<in> set (rows ?df). \<exists>r. row = map Str r \<and> record_shape r"
    using record_shape_findall by auto
  ultimately show "\<exists>df. written fs' output_csv = Some df \<and>
            (\<forall>row \<in> set (rows df). \<exists>r. row = map Str r \<and> record_shape r)"
    by blast
qed

theorem field_shapes_witness:
  "[''123-456-789'', ''JOHN DOE'', ''456 Main St.'', ''1,234.56'']
     \<in> set (re_findall pattern ''123-456-789 JOHN DOE 456 Main St. $1,234.56'') \<and>
   record_shape [''123-456-789'', ''JOHN DOE'', ''456 Main St.'', ''1,234.56'']"
  using field_shapes[of "[''123-456-789'', ''JOHN DOE'', ''456 Main St.'', ''1,234.56'']"
          "''123-456-789 JOHN DOE 456 Main St. $1,234.56''"]
  by (simp add: re_findall_literal)

end
